theory Spec2Isabelle
  imports Main "HOL-Library.Multiset"
begin

section \<open>JavaScript strings\<close>

text \<open>
  A JavaScript string is a sequence of code units. The model is \<^typ>\<open>string\<close>, whose
  characters stand for the code units 0 to 255 (ASCII and Latin-1). \<open>trim\<close> removes
  the white space and line terminators of that range from both ends: TAB, LF, VT, FF, CR,
  SP and NBSP.
\<close>

definition is_js_space :: "char \<Rightarrow> bool" where
  "is_js_space c = (of_char c \<in> {9, 10, 11, 12, 13, 32, 160 :: nat})"

definition trim :: "string \<Rightarrow> string" where
  "trim s = rev (dropWhile is_js_space (rev (dropWhile is_js_space s)))"

text \<open>\<open>toLowerCase\<close> on one code unit: A to Z, and the Latin-1 capitals but the
  multiplication sign.\<close>

definition to_lower :: "char \<Rightarrow> char" where
  "to_lower c =
     (let n = (of_char c :: nat)
      in if (65 \<le> n \<and> n \<le> 90) \<or> (192 \<le> n \<and> n \<le> 222 \<and> n \<noteq> 215)
         then char_of (n + 32) else c)"

definition starts_with :: "string \<Rightarrow> string \<Rightarrow> bool" where
  "starts_with p s = (take (length p) s = p)"

definition ends_with :: "string \<Rightarrow> string \<Rightarrow> bool" where
  "ends_with p s = (length p \<le> length s \<and> drop (length s - length p) s = p)"

section \<open>The record cap (\<open>--limit=N\<close>)\<close>


definition is_digit :: "char \<Rightarrow> bool" where
  "is_digit c = (48 \<le> (of_char c :: nat) \<and> (of_char c :: nat) \<le> 57)"

definition digit_val :: "char \<Rightarrow> int" where
  "digit_val c = int (of_char c) - 48"

definition digits_val :: "string \<Rightarrow> int" where
  "digits_val ds = foldl (\<lambda>acc c. 10 * acc + digit_val c) 0 ds"



section \<open>The sampler of \<open>processExport\<close>\<close>

text \<open>
  A record as \<open>xml2js\<close> delivers it, reduced to the fields read here. \<open>title\<close> is the
  string that \<open>typeof post.title === "string" ? post.title : post.title[0]\<close> gives,
  \<open>content\<close> is \<open>post["content:encoded"][0]\<close>. \<open>description\<close> is
  \<open>post.description\<close>: the array of the texts of the \<open>description\<close> children, or
  \<open>undefined\<close> (\<open>None\<close>). A metadata entry has its \<open>wp:meta_key\<close> (first element,
  \<open>None\<close> when the entry has no such child) and its \<open>wp:meta_value[0]\<close>.
\<close>

record meta =
  meta_key :: "string option"
  meta_value :: string

record post =
  title :: string
  content :: string
  description :: "string list option"
  postmeta :: "meta list option"

text \<open>\<open>title.trim().charAt(0).toLowerCase()\<close>; \<open>charAt(0)\<close> of the empty string is the
  empty string.\<close>

definition first_letter :: "string \<Rightarrow> string" where
  "first_letter t = (case trim t of [] \<Rightarrow> [] | c # _ \<Rightarrow> [to_lower c])"

text \<open>
  \<open>postsByFirstLetter\<close> is an object used as a dictionary in insertion order: an
  association list. \<open>push_post\<close> is the body of the \<open>forEach\<close>: a new key gets a new
  bucket at the end, a known key gets the post at the end of its bucket.
\<close>

fun push_post :: "(string \<times> 'p list) list \<Rightarrow> string \<Rightarrow> 'p \<Rightarrow> (string \<times> 'p list) list" where
  "push_post [] k p = [(k, [p])]"
| "push_post ((k', ps) # m) k p =
     (if k' = k then (k', ps @ [p]) # m else (k', ps) # push_post m k p)"

definition group_by_letter :: "('p \<Rightarrow> string) \<Rightarrow> 'p list \<Rightarrow> (string \<times> 'p list) list" where
  "group_by_letter ttl ps = foldl (\<lambda>m p. push_post m (first_letter (ttl p)) p) [] ps"

text \<open>
  \<open>Object.keys\<close> lists the keys that are array indices first, in ascending numeric
  order, then the other keys in insertion order. A key here is at most one code unit, so
  the array indices are the digits.
\<close>

definition is_index_key :: "string \<Rightarrow> bool" where
  "is_index_key k = (case k of [c] \<Rightarrow> is_digit c | _ \<Rightarrow> False)"

definition object_entries :: "(string \<times> 'p list) list \<Rightarrow> (string \<times> 'p list) list" where
  "object_entries m =
     sort_key (\<lambda>e. digits_val (fst e)) (filter (\<lambda>e. is_index_key (fst e)) m) @
     filter (\<lambda>e. \<not> is_index_key (fst e)) m"

text \<open>
  \<open>letterGroups\<close>: the keys sorted by \<open>size b - size a\<close>, largest bucket first.
  \<open>Array.prototype.sort\<close> is stable, as \<^const>\<open>sort_key\<close> is. Each key is kept with
  its bucket.
\<close>

definition letterGroups :: "('p \<Rightarrow> string) \<Rightarrow> 'p list \<Rightarrow> (string \<times> 'p list) list" where
  "letterGroups ttl ps =
     sort_key (\<lambda>e. - int (length (snd e))) (object_entries (group_by_letter ttl ps))"

definition any_left :: "'p list list \<Rightarrow> bool" where
  "any_left bs = list_ex (\<lambda>b. b \<noteq> []) bs"

text \<open>
  One visit of the \<open>while\<close> body, lines 197 to 202: a non-empty bucket gives its first
  post (\<open>shift\<close>) to the result and the remaining cap goes down by one; the index moves on
  cyclically. \<open>bs ! i\<close> is \<open>postsByFirstLetter[letterGroups[i]]\<close>; it is read only under
  the loop's guard \<open>i < length bs\<close>.
\<close>

definition visit :: "'p list list \<Rightarrow> 'p list \<Rightarrow> int \<Rightarrow> nat \<Rightarrow> 'p list list \<times> 'p list \<times> int \<times> nat" where
  "visit bs out remaining i =
     (if bs ! i \<noteq> []
      then (bs[i := tl (bs ! i)], out @ [hd (bs ! i)], remaining - 1, (i + 1) mod length bs)
      else (bs, out, remaining, (i + 1) mod length bs))"

text \<open>
  The \<open>while\<close> loop, lines 196 to 209. The result is \<open>None\<close> exactly when the loop does
  not return.
\<close>

partial_function (option) sample_loop ::
  "'p list list \<Rightarrow> 'p list \<Rightarrow> int \<Rightarrow> nat \<Rightarrow> 'p list option" where
  "sample_loop bs out remaining i =
     (if remaining > 0 \<and> i < length bs then
        (case visit bs out remaining i of
           (bs', out', remaining', i') \<Rightarrow>
             if i' = 0 \<and> \<not> any_left bs' then Some out'
             else sample_loop bs' out' remaining' i')
      else Some out)"

declare sample_loop.simps [code]

text \<open>Lines 168 to 212: the sampler runs only for a cap strictly between 0 and the
  number of posts.\<close>

definition postsToProcess :: "('p \<Rightarrow> string) \<Rightarrow> int \<Rightarrow> 'p list \<Rightarrow> 'p list option" where
  "postsToProcess ttl limit allPosts =
     (if limit > 0 \<and> limit < int (length allPosts)
      then sample_loop (map snd (letterGroups ttl allPosts)) [] limit 0
      else Some allPosts)"

section \<open>The libraries and the outside world\<close>

text \<open>
  \<open>processImage\<close> calls code that is not the repository's: \<open>he\<close>, \<open>node-fetch\<close>,
  \<open>URL\<close>, \<open>path\<close>, \<open>fs\<close> and \<open>image-type\<close>. Each call is a field of the
  environment, so that every theorem below holds whatever these libraries do.
  A call that throws returns \<open>None\<close>. \<open>fetch\<close> stands for \<open>downloadFile\<close> followed by
  \<open>response.buffer()\<close>: the bytes when the response is ok, \<open>None\<close> when either throws.
  The network is a function of the address for the time of the runs compared.
\<close>

type_synonym bytes = "nat list"

record 'fs env =
  he_decode :: "string \<Rightarrow> string"
  fetch :: "string \<Rightarrow> bytes option"
  url_pathname :: "string \<Rightarrow> string option"
  path_join :: "string list \<Rightarrow> string"
  path_parse_base :: "string \<Rightarrow> string"
  path_parse_name :: "string \<Rightarrow> string"
  path_basename :: "string \<Rightarrow> string"
  imageType :: "bytes \<Rightarrow> string option"
  existsSync :: "'fs \<Rightarrow> string \<Rightarrow> bool"
  mkdirSync :: "'fs \<Rightarrow> string \<Rightarrow> 'fs option"
  writeFileSync :: "'fs \<Rightarrow> string \<Rightarrow> bytes \<Rightarrow> 'fs option"

text \<open>The state the image functions act on: the file system, and the addresses handed
  to \<open>downloadFile\<close> so far, oldest first.\<close>

record 'fs world =
  disk :: 'fs
  requests :: "string list"

section \<open>String replacement\<close>

text \<open>
  \<open>String.prototype.replace\<close> reads its replacement text as a pattern: \<open>$$\<close> is a
  dollar, \<open>$&\<close> the matched text, \<open>$`\<close> the subject before the match and \<open>$'\<close> the
  subject after it. The expression built from the escaped address has no group, so
  \<open>$1\<close> and the like stay as they are.
\<close>

fun expand_dollar :: "string \<Rightarrow> string \<Rightarrow> string \<Rightarrow> string \<Rightarrow> string" where
  "expand_dollar m b a (c # d # r) =
     (if c = CHR ''$'' then
        (if d = CHR ''$'' then CHR ''$'' # expand_dollar m b a r
         else if d = CHR ''&'' then m @ expand_dollar m b a r
         else if d = CHR 0x60 then b @ expand_dollar m b a r
         else if d = CHR 0x27 then a @ expand_dollar m b a r
         else c # expand_dollar m b a (d # r))
      else c # expand_dollar m b a (d # r))"
| "expand_dollar m b a [c] = [c]"
| "expand_dollar m b a [] = []"

text \<open>
  \<open>s.replace(new RegExp(escaped, 'g'), rep)\<close>, where \<open>escaped\<close> is the text \<open>p\<close> with
  every special character escaped: each occurrence of \<open>p\<close>, found from left to right
  without overlap, is replaced. \<open>b\<close> is the part of the subject already passed. The empty
  expression matches before every code unit and at the end.
\<close>

function replace_all :: "string \<Rightarrow> string \<Rightarrow> string \<Rightarrow> string \<Rightarrow> string" where
  "replace_all p rep b [] = (if p = [] then expand_dollar [] b [] rep else [])"
| "replace_all p rep b (c # cs) =
     (if p = [] then expand_dollar [] b (c # cs) rep @ c # replace_all p rep (b @ [c]) cs
      else if starts_with p (c # cs)
      then expand_dollar p b (drop (length p) (c # cs)) rep
             @ replace_all p rep (b @ p) (drop (length p) (c # cs))
      else c # replace_all p rep (b @ [c]) cs)"
  by pat_completeness auto
termination
  by (relation "measure (\<lambda>(p, rep, b, s). length s)") auto

section \<open>The image expression\<close>

text \<open>
  \<open>/<img[^>]+src=["']([^"']+)["']/g\<close>. \<open>src_attr\<close> is the tail
  \<open>src=["']([^"']+)["']\<close> read at the head of a text: the group and the text after the
  closing quote. The group is the longest run without a quote, and a quote must follow.
\<close>

definition is_quote :: "char \<Rightarrow> bool" where
  "is_quote c = (c = CHR 0x22 \<or> c = CHR 0x27)"

definition src_attr :: "string \<Rightarrow> (string \<times> string) option" where
  "src_attr s =
     (if starts_with ''src='' s then
        (case drop 4 s of
           [] \<Rightarrow> None
         | q # t \<Rightarrow>
             if is_quote q then
               (let g = takeWhile (\<lambda>c. \<not> is_quote c) t
                in if g = [] then None
                   else (case dropWhile (\<lambda>c. \<not> is_quote c) t of
                           [] \<Rightarrow> None
                         | _ # rest \<Rightarrow> Some (g, rest)))
             else None)
      else None)"

text \<open>\<open>[^>]*\<close> followed by the tail. The quantifier is greedy: the longest run for which
  the tail still matches wins, so one more code unit is tried first.\<close>

fun not_gt_star :: "string \<Rightarrow> (string \<times> string) option" where
  "not_gt_star [] = src_attr []"
| "not_gt_star (c # cs) =
     (if c = CHR ''>'' then src_attr (c # cs)
      else (case not_gt_star cs of Some r \<Rightarrow> Some r | None \<Rightarrow> src_attr (c # cs)))"

text \<open>The whole expression at the head of a text; \<open>[^>]+\<close> takes at least one code
  unit.\<close>

definition img_at :: "string \<Rightarrow> (string \<times> string) option" where
  "img_at s =
     (if starts_with ''<img'' s then
        (case drop 4 s of
           [] \<Rightarrow> None
         | c # cs \<Rightarrow> if c = CHR ''>'' then None else not_gt_star cs)
      else None)"

lemma src_attr_shorter: "src_attr s = Some (g, rest) \<Longrightarrow> length rest < length s"
proof -
  assume a: "src_attr s = Some (g, rest)"
  then obtain q t x where s: "drop 4 s = q # t" and d: "dropWhile (\<lambda>c. \<not> is_quote c) t = x # rest"
    by (auto simp: src_attr_def Let_def split: if_splits list.splits)
  have "length (dropWhile (\<lambda>c. \<not> is_quote c) t) \<le> length t" by (rule length_dropWhile_le)
  then have "length rest < length t" using d by simp
  moreover have "length (drop 4 s) = Suc (length t)" using s by simp
  then have "length t < length s" by simp
  ultimately show ?thesis by simp
qed

lemma not_gt_star_shorter: "not_gt_star s = Some (g, rest) \<Longrightarrow> length rest < Suc (length s)"
proof (induction s)
  case Nil
  then show ?case using src_attr_shorter by fastforce
next
  case (Cons c cs)
  then show ?case
    using src_attr_shorter[of "c # cs" g rest]
    by (auto split: if_splits option.splits)
qed

lemma img_at_shorter: "img_at s = Some (g, rest) \<Longrightarrow> length rest < length s"
proof -
  assume a: "img_at s = Some (g, rest)"
  then obtain c cs where d: "drop 4 s = c # cs" and n: "not_gt_star cs = Some (g, rest)"
    by (auto simp: img_at_def split: if_splits list.splits)
  have "length rest < Suc (length cs)" using n by (rule not_gt_star_shorter)
  moreover have "Suc (length cs) = length s - 4" using d by (metis length_Cons length_drop)
  ultimately show ?thesis by simp
qed

text \<open>\<open>matchAll\<close>: the first group of every match, matches taken from left to right, the
  search going on after the end of the last match.\<close>

function matchAll_img :: "string \<Rightarrow> string list" where
  "matchAll_img [] = []"
| "matchAll_img (c # cs) =
     (case img_at (c # cs) of
        Some (g, rest) \<Rightarrow> g # matchAll_img rest
      | None \<Rightarrow> matchAll_img cs)"
  by pat_completeness auto
termination
proof (relation "measure length")
  fix c cs x g rest
  assume "img_at (c # cs) = Some x" "(g, rest) = x"
  then have "img_at (c # cs) = Some (g, rest)" by simp
  then show "(rest, c # cs) \<in> measure length" using img_at_shorter by fastforce
qed auto


section \<open>The image localizer\<close>

text \<open>\<open>[...new Set(xs)]\<close>: the elements in the order of their first occurrence.\<close>

definition js_set :: "'a list \<Rightarrow> 'a list" where
  "js_set xs = foldl (\<lambda>seen x. if x \<in> set seen then seen else seen @ [x]) [] xs"

text \<open>
  \<open>processImage\<close>, lines 264 to 312. An empty address returns at once. Otherwise the
  address is decoded and trimmed and handed to \<open>downloadFile\<close>; every exception after
  that point is caught and returns the body and the list as they came. On the way
  through, the file name is the base of the address's path, the directory is created when
  it does not exist, the bytes are written, every occurrence of the cleaned address in a
  non-empty body is replaced, and the name is pushed on the list.
\<close>

definition processImage ::
  "'fs env \<Rightarrow> string \<Rightarrow> string \<Rightarrow> string list \<Rightarrow> string \<Rightarrow> 'fs world
     \<Rightarrow> (string \<times> string list) \<times> 'fs world" where
  "processImage E url postData images directory w =
     (if url = [] then ((postData, images), w)
      else
        (let cleanUrl = trim (he_decode E url);
             w1 = w\<lparr>requests := requests w @ [cleanUrl]\<rparr>
         in (case fetch E cleanUrl of
               None \<Rightarrow> ((postData, images), w1)
             | Some buffer \<Rightarrow>
                 (case url_pathname E cleanUrl of
                    None \<Rightarrow> ((postData, images), w1)
                  | Some pathname \<Rightarrow>
                      (let imageName = path_parse_base E pathname;
                           imageDir = path_join E [directory];
                           relImagePath = ''./'' @ path_basename E directory @ ''/'' @ imageName
                       in (case (if existsSync E (disk w1) imageDir then Some (disk w1)
                                 else mkdirSync E (disk w1) imageDir) of
                             None \<Rightarrow> ((postData, images), w1)
                           | Some d1 \<Rightarrow>
                               (case writeFileSync E d1 (path_join E [imageDir, imageName]) buffer of
                                  None \<Rightarrow> ((postData, images), (w1\<lparr>disk := d1\<rparr>))
                                | Some d2 \<Rightarrow>
                                    (((if postData \<noteq> []
                                       then replace_all cleanUrl relImagePath [] postData
                                       else postData),
                                      images @ [imageName]),
                                     (w1\<lparr>disk := d2\<rparr>)))))))))"

text \<open>
  The \<open>for\<close> loop of \<open>processImages\<close>, lines 325 to 343, over the groups of the matches.
  \<open>processImage\<close> pushes on the very array it was given and returns it, so in
  \<open>[...images, ...newImages]\<close> both names denote the returned list.
\<close>

fun images_loop ::
  "'fs env \<Rightarrow> string \<Rightarrow> string list \<Rightarrow> string \<times> string list \<times> 'fs world
     \<Rightarrow> string \<times> string list \<times> 'fs world" where
  "images_loop E directory [] st = st"
| "images_loop E directory (m # ms) (updatedPostData, images, w) =
     (let url = trim m
      in if url = [] then images_loop E directory ms (updatedPostData, images, w)
         else (case processImage E url updatedPostData images directory w of
                 ((newPostData, newImages), w') \<Rightarrow>
                   images_loop E directory ms (newPostData, js_set (newImages @ newImages), w')))"

text \<open>The body handed to \<open>processImages\<close>: a string, \<open>null\<close> or \<open>undefined\<close>.\<close>

datatype body = Undefined | Null | Text string

definition processImages ::
  "'fs env \<Rightarrow> body \<Rightarrow> string \<Rightarrow> 'fs world \<Rightarrow> (body \<times> string list) \<times> 'fs world" where
  "processImages E postData directory w =
     (case postData of
        Text s \<Rightarrow>
          if s = [] then ((postData, []), w)
          else (case images_loop E directory (matchAll_img s) (s, [], w) of
                  (updatedPostData, images, w') \<Rightarrow> ((Text updatedPostData, images), w'))
      | _ \<Rightarrow> ((postData, []), w))"


definition clean_address :: "'fs env \<Rightarrow> string \<Rightarrow> string" where
  "clean_address E url = trim (he_decode E url)"

text \<open>
  \<open>constructImageName\<close>, lines 228 to 238: the leading slash of the path goes, every
  other slash becomes a dash, stars go; the extension is the one \<open>image-type\<close> reads in
  the bytes. Destructuring its \<open>null\<close> throws. No function of the file calls it.
\<close>

definition constructImageName :: "'fs env \<Rightarrow> string \<Rightarrow> bytes \<Rightarrow> string option" where
  "constructImageName E pathname buffer =
     (let p1 = (case pathname of [] \<Rightarrow> [] | c # r \<Rightarrow> if c = CHR ''/'' then r else pathname);
          p2 = map (\<lambda>c. if c = CHR ''/'' then CHR ''-'' else c) p1;
          p3 = filter (\<lambda>c. c \<noteq> CHR ''*'') p2
      in case imageType E buffer of
           None \<Rightarrow> None
         | Some ext \<Rightarrow> Some (path_parse_name E p3 @ ''.'' @ ext))"

section \<open>The front matter of \<open>processPost\<close>\<close>

definition js_includes :: "string \<Rightarrow> string \<Rightarrow> bool" where
  "js_includes p s = list_ex (\<lambda>i. starts_with p (drop i s)) [0..<Suc (length s)]"

text \<open>
  Lines 372 to 381. The candidates are \<open>post.description\<close> and the metadata entries
  (the objects, as the source has them) whose key includes a marker; \<open>filter(Boolean)\<close>
  drops an \<open>undefined\<close> description and keeps every array and object.
\<close>

datatype candidate = DescField "string list" | MetaEntry meta

definition is_description_meta :: "meta \<Rightarrow> bool" where
  "is_description_meta m =
     (case meta_key m of
        None \<Rightarrow> False
      | Some k \<Rightarrow> js_includes ''metadesc'' k \<or> js_includes ''description'' k)"

definition description_candidates :: "post \<Rightarrow> candidate list" where
  "description_candidates p =
     (case description p of None \<Rightarrow> [] | Some d \<Rightarrow> [DescField d]) @
     map MetaEntry (filter is_description_meta (case postmeta p of None \<Rightarrow> [] | Some ms \<Rightarrow> ms))"

text \<open>\<open>.length\<close>: the number of elements of an array, \<open>undefined\<close> on an object that has
  no such property.\<close>

definition js_length :: "candidate \<Rightarrow> int option" where
  "js_length c = (case c of DescField d \<Rightarrow> Some (int (length d)) | MetaEntry m \<Rightarrow> None)"

text \<open>\<open>(a, b) => b.length - a.length\<close>; a difference with \<open>undefined\<close> is \<open>NaN\<close>, which
  \<open>sort\<close> reads as 0.\<close>

definition by_length_desc :: "candidate \<Rightarrow> candidate \<Rightarrow> int" where
  "by_length_desc a b =
     (case (js_length b, js_length a) of
        (Some lb, Some la) \<Rightarrow> lb - la
      | _ \<Rightarrow> 0)"

text \<open>\<open>Array.prototype.sort\<close> with a comparison function: a stable sort, here by
  insertion. An element goes before the first one it does not come after.\<close>

fun insert_by :: "('a \<Rightarrow> 'a \<Rightarrow> int) \<Rightarrow> 'a \<Rightarrow> 'a list \<Rightarrow> 'a list" where
  "insert_by cmp x [] = [x]"
| "insert_by cmp x (y # ys) = (if cmp x y \<le> 0 then x # y # ys else y # insert_by cmp x ys)"

definition js_sort :: "('a \<Rightarrow> 'a \<Rightarrow> int) \<Rightarrow> 'a list \<Rightarrow> 'a list" where
  "js_sort cmp xs = foldr (insert_by cmp) xs []"

fun join_comma :: "string list \<Rightarrow> string" where
  "join_comma [] = []"
| "join_comma [x] = x"
| "join_comma (x # y # r) = x @ '','' @ join_comma (y # r)"

text \<open>The value of \<open>description\<close> as the template literal of line 455 prints it:
  an array joins its elements with commas, an object prints as \<open>[object Object]\<close>.\<close>

definition description_text :: "post \<Rightarrow> string" where
  "description_text p =
     (case js_sort by_length_desc (description_candidates p) of
        [] \<Rightarrow> ''undefined''
      | DescField d # _ \<Rightarrow> join_comma d
      | MetaEntry m # _ \<Rightarrow> ''[object Object]'')"

definition description_line :: "post \<Rightarrow> string" where
  "description_line p = ''description: '' @ [CHR 0x22] @ description_text p @ [CHR 0x22]"







section \<open>A concrete environment and concrete inputs\<close>

text \<open>
  The environment the examples run in. It agrees with the libraries on the inputs of
  the examples: \<open>he.decode\<close> leaves a text without \<open>&\<close> as it is; \<open>URL\<close> accepts an
  \<open>http\<close> or \<open>https\<close> address with a host and gives the path up to the query or the
  fragment, and throws on a relative reference; \<open>path\<close> is the POSIX one on paths that are
  already normal; \<open>image-type\<close> reads the PNG, JPEG and GIF signatures; the file system
  is a list of directories and a list of files, and writing on a directory fails.
\<close>

definition demo_pathname :: "string \<Rightarrow> string option" where
  "demo_pathname u =
     (case (if starts_with ''https://'' u then Some (drop 8 u)
            else if starts_with ''http://'' u then Some (drop 7 u) else None) of
        None \<Rightarrow> None
      | Some s \<Rightarrow>
          let stop = (\<lambda>c. c = CHR ''/'' \<or> c = CHR ''?'' \<or> c = CHR ''#'');
              host = takeWhile (\<lambda>c. \<not> stop c) s;
              path = takeWhile (\<lambda>c. c \<noteq> CHR ''?'' \<and> c \<noteq> CHR ''#'') (dropWhile (\<lambda>c. \<not> stop c) s)
          in if host = [] then None else Some (if path = [] then ''/'' else path))"

definition posix_base :: "string \<Rightarrow> string" where
  "posix_base p =
     rev (takeWhile (\<lambda>c. c \<noteq> CHR ''/'') (dropWhile (\<lambda>c. c = CHR ''/'') (rev p)))"

definition posix_name :: "string \<Rightarrow> string" where
  "posix_name p =
     (let b = posix_base p; e = takeWhile (\<lambda>c. c \<noteq> CHR ''.'') (rev b)
      in if CHR ''.'' \<notin> set b \<or> Suc (length e) = length b then b
         else take (length b - Suc (length e)) b)"

fun join_slash :: "string list \<Rightarrow> string" where
  "join_slash [] = []"
| "join_slash [x] = x"
| "join_slash (x # y # r) = x @ ''/'' @ join_slash (y # r)"

definition posix_join :: "string list \<Rightarrow> string" where
  "posix_join parts = join_slash (filter (\<lambda>s. s \<noteq> []) parts)"

definition sniff :: "bytes \<Rightarrow> string option" where
  "sniff b =
     (if take 8 b = [137, 80, 78, 71, 13, 10, 26, 10] then Some ''png''
      else if take 3 b = [255, 216, 255] then Some ''jpg''
      else if take 3 b = [71, 73, 70] then Some ''gif''
      else None)"

type_synonym demo_fs = "string list \<times> (string \<times> bytes) list"

definition demo_env :: "(string \<times> bytes) list \<Rightarrow> demo_fs env" where
  "demo_env net =
     \<lparr> he_decode = (\<lambda>s. s),
       fetch = map_of net,
       url_pathname = demo_pathname,
       path_join = posix_join,
       path_parse_base = posix_base,
       path_parse_name = posix_name,
       path_basename = posix_base,
       imageType = sniff,
       existsSync = (\<lambda>d p. p \<in> set (fst d) \<or> p \<in> fst ` set (snd d)),
       mkdirSync = (\<lambda>d p. Some (fst d @ [p], snd d)),
       writeFileSync = (\<lambda>d p b. if p \<in> set (fst d) then None else Some (fst d, (p, b) # snd d)) \<rparr>"

text \<open>The network of the examples: three addresses serve a PNG, one a GIF, every other
  address fails. The output directory \<open>out\<close> exists and is empty.\<close>

definition png_bytes :: bytes where
  "png_bytes = [137, 80, 78, 71, 13, 10, 26, 10, 0, 0, 0, 13]"

definition gif_bytes :: bytes where
  "gif_bytes = [71, 73, 70, 56, 57, 97, 1, 0, 1, 0]"

definition demo_net :: "(string \<times> bytes) list" where
  "demo_net = [(''https://example.com/image.php'', png_bytes),
               (''http://x/a.png?q=>'', png_bytes),
               (''http://y/c.png'', png_bytes),
               (''http://x/anim.gif'', gif_bytes)]"

definition w0 :: "demo_fs world" where
  "w0 = \<lparr> disk = ([''out''], []), requests = [] \<rparr>"

text \<open>A body whose image address ends in \<open>.php\<close>.\<close>

definition php_body :: string where
  \<open>php_body = ''<p><img class="x" src="https://example.com/image.php"></p>''\<close>


text \<open>Four posts under three first letters; the second title starts with a space.\<close>

definition mk_post :: "string \<Rightarrow> post" where
  "mk_post t = \<lparr>title = t, content = [], description = None, postmeta = None\<rparr>"

definition ex_posts :: "post list" where
  "ex_posts = [mk_post ''Apple'', mk_post '' avocado'', mk_post ''Banana'', mk_post ''7 things'']"

text \<open>A body whose first address cannot be downloaded; a body that a run has already
  rewritten, with an empty candidate beside the relative path; a body with a GIF before
  a PNG, and a post with that body.\<close>

definition dead_body :: string where
  \<open>dead_body = ''<img src="http://dead/x.png"><img src="http://y/c.png">''\<close>


definition gif_png_body :: string where
  \<open>gif_png_body = ''<img src="http://x/anim.gif"><img src="http://y/c.png">''\<close>





text \<open>A post with an empty \<open>description\<close> element and a description entry in its
  metadata.\<close>

definition meta_post :: post where
  "meta_post = \<lparr>title = ''Hello'', content = ''<p>Hello</p>'', description = Some [[]],
     postmeta = Some [\<lparr>meta_key = Some ''_yoast_wpseo_metadesc'',
                        meta_value = ''A long summary of the post''\<rparr>]\<rparr>"



section \<open>Notions used in the proofs\<close>

text \<open>The measure of the sampler's loop: the posts left in the buckets first, then
  whether a non-empty bucket is still ahead in this pass, then the distance to the end of
  the pass.\<close>

definition mu :: "'p list list \<Rightarrow> nat \<Rightarrow> nat" where
  "mu bs i = sum_list (map length bs) * (2 * length bs + 2)
     + (if any_left (drop i bs) then 0 else length bs + 1) + (length bs - i)"

text \<open>What the grouping establishes: one bucket per key, none empty, every post under
  the key of its title.\<close>

definition buckets_ok :: "('p \<Rightarrow> string) \<Rightarrow> (string \<times> 'p list) list \<Rightarrow> bool" where
  "buckets_ok k m = (distinct (map fst m) \<and> (\<forall>e \<in> set m. snd e \<noteq> [] \<and> (\<forall>p \<in> set (snd e). k p = fst e)))"

section \<open>The sampler: termination and selection\<close>

lemma sum_shift:
  assumes "i < length bs" "bs ! i \<noteq> []"
  shows "Suc (sum_list (map length (bs[i := tl (bs ! i)]))) = sum_list (map length bs)"
proof -
  have a: "sum_list (map length bs)
      = sum_list (map length (take i bs)) + length (bs ! i) + sum_list (map length (drop (Suc i) bs))"
    using assms(1) by (subst id_take_nth_drop[of i bs]) simp_all
  have b: "sum_list (map length (bs[i := tl (bs ! i)]))
      = sum_list (map length (take i bs)) + length (tl (bs ! i)) + sum_list (map length (drop (Suc i) bs))"
    using assms(1) by (simp add: upd_conv_take_nth_drop)
  have c: "Suc (length (tl (bs ! i))) = length (bs ! i)"
    using assms(2) by (cases "bs ! i") auto
  show ?thesis unfolding a b using c by linarith
qed

lemma any_left_drop_empty:
  assumes "i < length bs" "bs ! i = []"
  shows "any_left (drop i bs) = any_left (drop (Suc i) bs)"
proof -
  have "drop i bs = bs ! i # drop (Suc i) bs"
    using assms(1) by (simp add: Cons_nth_drop_Suc)
  then show ?thesis using assms(2) by (simp add: any_left_def)
qed

lemma mu_visit:
  assumes "i < length bs" "visit bs out r i = (bs', out', r', i')"
    and "\<not> (i' = 0 \<and> \<not> any_left bs')"
  shows "mu bs' i' < mu bs i"
proof (cases "bs ! i = []")
  case True
  then have eq: "bs' = bs" "i' = (i + 1) mod length bs"
    using assms(2) by (auto simp: visit_def)
  show ?thesis
  proof (cases "Suc i < length bs")
    case True
    then have "i' = Suc i" using eq by simp
    then show ?thesis
      using eq True any_left_drop_empty[OF assms(1) \<open>bs ! i = []\<close>]
      by (simp add: mu_def)
  next
    case False
    then have i: "Suc i = length bs" using assms(1) by simp
    then have "i' = 0" using eq by simp
    with assms(3) eq have al: "any_left bs" by simp
    have "drop (Suc i) bs = []" using i by simp
    then have "\<not> any_left (drop i bs)"
      using any_left_drop_empty[OF assms(1) \<open>bs ! i = []\<close>] by (simp add: any_left_def)
    then show ?thesis using al eq \<open>i' = 0\<close> i by (simp add: mu_def)
  qed
next
  case False
  then have eq: "bs' = bs[i := tl (bs ! i)]" "i' = (i + 1) mod length bs"
    using assms(2) by (auto simp: visit_def)
  have s: "Suc (sum_list (map length bs')) = sum_list (map length bs)"
    using sum_shift[OF assms(1) False] eq by simp
  have "0 < length bs" using assms(1) by auto
  then have "i' < length bs" using eq by simp
  define n where "n = length bs"
  define x where "x = sum_list (map length bs')"
  define f where "f = (if any_left (drop i' bs') then 0 else n + 1)"
  define g where "g = (if any_left (drop i bs) then 0 else n + 1)"
  have len: "length bs' = n" using eq by (simp add: n_def)
  have y: "sum_list (map length bs) = Suc x" using s by (simp add: x_def)
  have m': "mu bs' i' = x * (2 * n + 2) + f + (n - i')"
    by (simp only: mu_def len x_def f_def)
  have m: "mu bs i = Suc x * (2 * n + 2) + g + (n - i)"
    by (simp only: mu_def y g_def n_def)
  have "f \<le> n + 1" by (simp add: f_def)
  then have "mu bs' i' \<le> x * (2 * n + 2) + (n + 1) + n"
    unfolding m' by linarith
  also have "\<dots> < Suc x * (2 * n + 2)"
    by simp
  also have "\<dots> \<le> mu bs i" unfolding m by simp
  finally show ?thesis .
qed


lemma sample_loop_induct [case_names step]:
  assumes step: "\<And>bs out r i.
     (\<And>bs' out' r' i'. 0 < r \<Longrightarrow> i < length bs \<Longrightarrow> visit bs out r i = (bs', out', r', i')
        \<Longrightarrow> \<not> (i' = 0 \<and> \<not> any_left bs') \<Longrightarrow> P bs' out' r' i')
     \<Longrightarrow> P bs out r i"
  shows "P bs out r i"
proof (induction "mu bs i" arbitrary: bs out r i rule: less_induct)
  case less
  show ?case
  proof (rule step)
    fix bs' out' r' i'
    assume "i < length bs" "visit bs out r i = (bs', out', r', i')"
      "\<not> (i' = 0 \<and> \<not> any_left bs')"
    then have "mu bs' i' < mu bs i" by (rule mu_visit)
    then show "P bs' out' r' i'" by (rule less)
  qed
qed

lemma sample_loop_exit:
  "\<not> (0 < r \<and> i < length bs) \<Longrightarrow> sample_loop bs out r i = Some out"
  by (subst sample_loop.simps) auto

lemma sample_loop_break:
  "0 < r \<Longrightarrow> i < length bs \<Longrightarrow> visit bs out r i = (bs', out', r', i') \<Longrightarrow>
   i' = 0 \<and> \<not> any_left bs' \<Longrightarrow> sample_loop bs out r i = Some out'"
  by (subst sample_loop.simps) auto

lemma sample_loop_next:
  "0 < r \<Longrightarrow> i < length bs \<Longrightarrow> visit bs out r i = (bs', out', r', i') \<Longrightarrow>
   \<not> (i' = 0 \<and> \<not> any_left bs') \<Longrightarrow> sample_loop bs out r i = sample_loop bs' out' r' i'"
  by (subst sample_loop.simps) auto

lemma sample_loop_total: "\<exists>res. sample_loop bs out r i = Some res"
proof (induction bs out r i rule: sample_loop_induct)
  case (step bs out r i)
  obtain bs' out' r' i' where v: "visit bs out r i = (bs', out', r', i')"
    by (cases "visit bs out r i") auto
  show ?case
  proof (cases "0 < r \<and> i < length bs")
    case False
    then show ?thesis by (simp add: sample_loop_exit)
  next
    case True
    then have g: "0 < r" "i < length bs" by simp_all
    show ?thesis
    proof (cases "i' = 0 \<and> \<not> any_left bs'")
      case True
      then show ?thesis using sample_loop_break[OF g v] by simp
    next
      case False
      then have "\<exists>res. sample_loop bs' out' r' i' = Some res" by (rule step[OF g v])
      then show ?thesis using sample_loop_next[OF g v False] by simp
    qed
  qed
qed

lemma sample_loop_prefix:
  "sample_loop bs out r i = Some res \<Longrightarrow> \<exists>ys. res = out @ ys"
proof (induction bs out r i rule: sample_loop_induct)
  case (step bs out r i)
  obtain bs' out' r' i' where v: "visit bs out r i = (bs', out', r', i')"
    by (cases "visit bs out r i") auto
  then have o: "\<exists>zs. out' = out @ zs" by (auto simp: visit_def split: if_splits)
  show ?case
  proof (cases "0 < r \<and> i < length bs")
    case False
    then show ?thesis using step.prems by (simp add: sample_loop_exit)
  next
    case True
    then have g: "0 < r" "i < length bs" by simp_all
    show ?thesis
    proof (cases "i' = 0 \<and> \<not> any_left bs'")
      case True
      then show ?thesis using sample_loop_break[OF g v] step.prems o by simp
    next
      case False
      have "sample_loop bs' out' r' i' = Some res"
        using sample_loop_next[OF g v False] step.prems by simp
      then have "\<exists>ys. res = out' @ ys" by (rule step.IH[OF g v False])
      then show ?thesis using o by auto
    qed
  qed
qed

lemma any_left_sum: "any_left bs \<longleftrightarrow> 0 < sum_list (map length bs)"
  by (induction bs) (auto simp: any_left_def)

lemma sample_loop_length:
  "sample_loop bs out r i = Some res \<Longrightarrow> 0 \<le> r \<Longrightarrow> r \<le> int (sum_list (map length bs)) \<Longrightarrow>
   i < length bs \<Longrightarrow> int (length res) = int (length out) + r"
proof (induction bs out r i rule: sample_loop_induct)
  case (step bs out r i)
  obtain bs' out' r' i' where v: "visit bs out r i = (bs', out', r', i')"
    by (cases "visit bs out r i") auto
  show ?case
  proof (cases "0 < r")
    case False
    then show ?thesis using step.prems by (simp add: sample_loop_exit)
  next
    case True
    note g = True \<open>i < length bs\<close>
    have "0 < length bs" using g(2) by auto
    then have i': "i' < length bs'" using v by (auto simp: visit_def split: if_splits)
    have inv: "int (length out') + r' = int (length out) + r \<and> 0 \<le> r'
        \<and> r' \<le> int (sum_list (map length bs'))"
    proof (cases "bs ! i = []")
      case True
      then show ?thesis using v step.prems by (auto simp: visit_def)
    next
      case False
      then have "bs' = bs[i := tl (bs ! i)]" "out' = out @ [hd (bs ! i)]" "r' = r - 1"
        using v by (auto simp: visit_def)
      then show ?thesis using sum_shift[OF g(2) False] step.prems g(1) by auto
    qed
    show ?thesis
    proof (cases "i' = 0 \<and> \<not> any_left bs'")
      case True
      then have "sum_list (map length bs') = 0" using any_left_sum[of bs'] by blast
      then have "r' = 0" using inv by linarith
      then show ?thesis using sample_loop_break[OF g v True] step.prems inv by simp
    next
      case False
      have "sample_loop bs' out' r' i' = Some res"
        using sample_loop_next[OF g v False] step.prems by simp
      then have "int (length res) = int (length out') + r'"
        using inv i' by (intro step.IH[OF g v False]) simp_all
      then show ?thesis using inv by simp
    qed
  qed
qed

lemma sample_loop_first_pass:
  "sample_loop bs out r i = Some res \<Longrightarrow> i \<le> j \<Longrightarrow> j < length bs \<Longrightarrow> int j < int i + r \<Longrightarrow>
   (\<And>k. i \<le> k \<Longrightarrow> k < length bs \<Longrightarrow> bs ! k \<noteq> []) \<Longrightarrow> hd (bs ! j) \<in> set res"
proof (induction bs out r i rule: sample_loop_induct)
  case (step bs out r i)
  have g: "0 < r" "i < length bs" using step.prems by auto
  have ne: "bs ! i \<noteq> []" using step.prems(5)[of i] g by simp
  define bs' where "bs' = bs[i := tl (bs ! i)]"
  define out' where "out' = out @ [hd (bs ! i)]"
  define i' where "i' = (i + 1) mod length bs"
  have v: "visit bs out r i = (bs', out', r - 1, i')"
    using ne by (simp add: visit_def bs'_def out'_def i'_def)
  have here: "hd (bs ! i) \<in> set res"
  proof (cases "i' = 0 \<and> \<not> any_left bs'")
    case True
    then show ?thesis using sample_loop_break[OF g v True] step.prems(1) by (simp add: out'_def)
  next
    case False
    have "sample_loop bs' out' (r - 1) i' = Some res"
      using sample_loop_next[OF g v False] step.prems(1) by simp
    then obtain ys where "res = out' @ ys" using sample_loop_prefix by blast
    then show ?thesis by (simp add: out'_def)
  qed
  show ?case
  proof (cases "j = i")
    case True
    then show ?thesis using here by simp
  next
    case False
    then have j: "Suc i \<le> j" using step.prems(2) by simp
    then have si: "Suc i < length bs" using step.prems(3) by simp
    then have i'eq: "i' = Suc i" by (simp add: i'_def)
    then have nb: "\<not> (i' = 0 \<and> \<not> any_left bs')" by simp
    have run: "sample_loop bs' out' (r - 1) i' = Some res"
      using sample_loop_next[OF g v nb] step.prems(1) by simp
    have "hd (bs' ! j) \<in> set res"
    proof (rule step.IH[OF g v nb run])
      show "i' \<le> j" using j i'eq by simp
      show "j < length bs'" using step.prems(3) by (simp add: bs'_def)
      show "int j < int i' + (r - 1)" using step.prems(4) i'eq by simp
      fix k assume "i' \<le> k" "k < length bs'"
      then have "i \<le> k" "k < length bs" "k \<noteq> i" using i'eq by (simp_all add: bs'_def)
      then show "bs' ! k \<noteq> []" using step.prems(5)[of k] by (simp add: bs'_def)
    qed
    moreover have "bs' ! j = bs ! j" using False by (simp add: bs'_def)
    ultimately show ?thesis by simp
  qed
qed


lemma push_post_keys: "fst ` set (push_post m key p) = insert key (fst ` set m)"
  by (induction m key p rule: push_post.induct) auto

lemma push_post_ok: "buckets_ok k m \<Longrightarrow> buckets_ok k (push_post m (k p) p)"
proof (induction m "k p" p rule: push_post.induct)
  case (1 p)
  then show ?case by (simp add: buckets_ok_def)
next
  case (2 k' ps m p)
  show ?case
  proof (cases "k' = k p")
    case True
    then show ?thesis using 2(2) by (auto simp: buckets_ok_def)
  next
    case False
    have "buckets_ok k m" using 2(2) by (auto simp: buckets_ok_def)
    then have "buckets_ok k (push_post m (k p) p)" using 2(1) False by simp
    moreover have "k' \<notin> fst ` set (push_post m (k p) p)"
      using 2(2) False unfolding push_post_keys by (auto simp: buckets_ok_def)
    ultimately show ?thesis using 2(2) False by (auto simp: buckets_ok_def)
  qed
qed

lemma push_post_sum:
  "sum_list (map (\<lambda>e. length (snd e)) (push_post m key p)) = Suc (sum_list (map (\<lambda>e. length (snd e)) m))"
  by (induction m key p rule: push_post.induct) auto

lemma group_snoc:
  "group_by_letter ttl (ps @ [p]) = push_post (group_by_letter ttl ps) (first_letter (ttl p)) p"
  by (simp add: group_by_letter_def)

lemma group_ok: "buckets_ok (\<lambda>p. first_letter (ttl p)) (group_by_letter ttl ps)"
proof (induction ps rule: rev_induct)
  case Nil
  then show ?case by (simp add: group_by_letter_def buckets_ok_def)
next
  case (snoc p ps)
  then show ?case unfolding group_snoc by (rule push_post_ok)
qed

lemma group_keys: "fst ` set (group_by_letter ttl ps) = (\<lambda>p. first_letter (ttl p)) ` set ps"
proof (induction ps rule: rev_induct)
  case Nil
  then show ?case by (simp add: group_by_letter_def)
next
  case (snoc p ps)
  then show ?case unfolding group_snoc push_post_keys by auto
qed

lemma group_sum: "sum_list (map (\<lambda>e. length (snd e)) (group_by_letter ttl ps)) = length ps"
proof (induction ps rule: rev_induct)
  case Nil
  then show ?case by (simp add: group_by_letter_def)
next
  case (snoc p ps)
  then show ?case unfolding group_snoc push_post_sum by simp
qed

lemma mset_object_entries: "mset (object_entries m) = mset m"
  by (simp add: object_entries_def)

lemma mset_letterGroups: "mset (letterGroups ttl ps) = mset (group_by_letter ttl ps)"
  by (simp add: letterGroups_def mset_object_entries)

lemma buckets_ok_mset:
  assumes "mset m' = mset m" "buckets_ok k m"
  shows "buckets_ok k m'"
proof -
  have "mset (map fst m') = mset (map fst m)" using assms(1) by (metis mset_map)
  then have "distinct (map fst m') = distinct (map fst m)" by (rule mset_eq_imp_distinct_iff)
  moreover have "set m' = set m" using assms(1) by (rule mset_eq_setD)
  ultimately show ?thesis using assms(2) by (simp add: buckets_ok_def)
qed

lemma sum_mset_eq:
  assumes "mset m' = mset m"
  shows "sum_list (map f m') = (sum_list (map f m) :: nat)"
proof -
  have "mset (map f m') = mset (map f m)" using assms by (metis mset_map)
  then show ?thesis by (metis sum_mset_sum_list)
qed

lemma letterGroups_ok: "buckets_ok (\<lambda>p. first_letter (ttl p)) (letterGroups ttl ps)"
  using buckets_ok_mset[OF mset_letterGroups group_ok] .

lemma letterGroups_keys:
  "fst ` set (letterGroups ttl ps) = (\<lambda>p. first_letter (ttl p)) ` set ps"
  using mset_eq_setD[OF mset_letterGroups] group_keys by metis

lemma letterGroups_sum:
  "sum_list (map length (map snd (letterGroups ttl ps))) = length ps"
  using sum_mset_eq[OF mset_letterGroups, of "\<lambda>e. length (snd e)" ttl ps] group_sum[of ttl ps]
  by (simp add: comp_def)

lemma letterGroups_length:
  "length (letterGroups ttl ps) = card ((\<lambda>p. first_letter (ttl p)) ` set ps)"
proof -
  have "distinct (map fst (letterGroups ttl ps))"
    using letterGroups_ok[of ttl ps] by (simp add: buckets_ok_def)
  then have "card (set (map fst (letterGroups ttl ps))) = length (map fst (letterGroups ttl ps))"
    by (rule distinct_card)
  then show ?thesis using letterGroups_keys[of ttl ps] by simp
qed



lemma concat_shift:
  assumes "i < length bs" "bs ! i \<noteq> []"
  shows "add_mset (hd (bs ! i)) (mset (concat (bs[i := tl (bs ! i)]))) = mset (concat bs)"
proof -
  have a: "concat bs = concat (take i bs) @ bs ! i @ concat (drop (Suc i) bs)"
    using assms(1) by (subst id_take_nth_drop[of i bs]) simp_all
  have b: "concat (bs[i := tl (bs ! i)])
      = concat (take i bs) @ tl (bs ! i) @ concat (drop (Suc i) bs)"
    using assms(1) by (simp add: upd_conv_take_nth_drop)
  have c: "add_mset (hd (bs ! i)) (mset (tl (bs ! i))) = mset (bs ! i)"
    using assms(2) by (cases "bs ! i") auto
  show ?thesis unfolding a b using c[symmetric] by simp
qed

lemma visit_mset:
  assumes "i < length bs" "visit bs out r i = (bs', out', r', i')"
  shows "mset out' + mset (concat bs') = mset out + mset (concat bs)"
proof (cases "bs ! i = []")
  case True
  then show ?thesis using assms(2) by (auto simp: visit_def)
next
  case False
  then have "bs' = bs[i := tl (bs ! i)]" "out' = out @ [hd (bs ! i)]"
    using assms(2) by (auto simp: visit_def)
  then show ?thesis using concat_shift[OF assms(1) False, symmetric] by simp
qed

lemma sample_loop_mset:
  "sample_loop bs out r i = Some res \<Longrightarrow> mset res \<subseteq># mset out + mset (concat bs)"
proof (induction bs out r i rule: sample_loop_induct)
  case (step bs out r i)
  obtain bs' out' r' i' where v: "visit bs out r i = (bs', out', r', i')"
    by (cases "visit bs out r i") auto
  show ?case
  proof (cases "0 < r \<and> i < length bs")
    case False
    then have "res = out" using step.prems by (simp add: sample_loop_exit)
    then show ?thesis by simp
  next
    case True
    then have g: "0 < r" "i < length bs" by simp_all
    have eq: "mset out' + mset (concat bs') = mset out + mset (concat bs)"
      using visit_mset[OF g(2) v] .
    show ?thesis
    proof (cases "i' = 0 \<and> \<not> any_left bs'")
      case True
      then have "res = out'" using sample_loop_break[OF g v] step.prems by simp
      then have "mset res \<subseteq># mset out' + mset (concat bs')" by simp
      then show ?thesis unfolding eq .
    next
      case False
      have "sample_loop bs' out' r' i' = Some res"
        using sample_loop_next[OF g v False] step.prems by simp
      then have "mset res \<subseteq># mset out' + mset (concat bs')" by (rule step.IH[OF g v False])
      then show ?thesis unfolding eq .
    qed
  qed
qed

lemma push_post_mset:
  "mset (concat (map snd (push_post m key p))) = add_mset p (mset (concat (map snd m)))"
  by (induction m key p rule: push_post.induct) auto

lemma group_mset: "mset (concat (map snd (group_by_letter ttl ps))) = mset ps"
proof (induction ps rule: rev_induct)
  case Nil
  then show ?case by (simp add: group_by_letter_def)
next
  case (snoc p ps)
  then show ?case unfolding group_snoc push_post_mset by simp
qed

lemma concat_mset_eq:
  assumes "mset m' = mset m"
  shows "mset (concat (map snd m')) = mset (concat (map snd m))"
proof -
  have "mset (map (\<lambda>e. mset (snd e)) m') = mset (map (\<lambda>e. mset (snd e)) m)"
    using assms by (metis mset_map)
  then have "sum_list (map (\<lambda>e. mset (snd e)) m') = sum_list (map (\<lambda>e. mset (snd e)) m)"
    by (metis sum_mset_sum_list)
  then show ?thesis by (simp add: mset_concat comp_def)
qed

lemma letterGroups_mset: "mset (concat (map snd (letterGroups ttl ps))) = mset ps"
  using concat_mset_eq[OF mset_letterGroups, of ttl ps] group_mset[of ttl ps] by simp

text \<open>
  C2. For a cap \<open>c\<close> with \<open>0 < c < total\<close>, the sampler returns a selection of exactly
  \<open>c\<close> records. The selection is made of records of the input, each taken at most as
  often as the input has it, and it has records of at least \<open>min c b\<close> distinct first
  letters, \<open>b\<close> being the number of first letters of the input, that is, of non-empty
  buckets.
\<close>

theorem sampler_exact_and_spread:
  assumes "0 < c" "c < int (length ps)"
  shows "\<exists>sel. postsToProcess ttl c ps = Some sel \<and> int (length sel) = c \<and>
           mset sel \<subseteq># mset ps \<and>
           min (nat c) (card ((\<lambda>p. first_letter (ttl p)) ` set ps))
             \<le> card ((\<lambda>p. first_letter (ttl p)) ` set sel)"
proof -
  define m where "m = letterGroups ttl ps"
  define bs where "bs = map snd m"
  define k where "k = (\<lambda>p. first_letter (ttl p))"
  have ok: "buckets_ok k m" unfolding m_def k_def by (rule letterGroups_ok)
  have sum: "sum_list (map length bs) = length ps"
    unfolding bs_def m_def by (rule letterGroups_sum)
  have n: "length bs = card (k ` set ps)"
    unfolding bs_def m_def k_def by (simp add: letterGroups_length)
  have "bs \<noteq> []" using sum assms by auto
  then have pos: "0 < length bs" by simp
  obtain sel where run: "sample_loop bs [] c 0 = Some sel"
    using sample_loop_total by blast
  have p: "postsToProcess ttl c ps = Some sel"
    using assms run by (simp add: postsToProcess_def bs_def m_def)
  have len: "int (length sel) = c"
    using sample_loop_length[OF run _ _ pos] assms sum by simp
  have sub: "mset sel \<subseteq># mset ps"
    using sample_loop_mset[OF run] letterGroups_mset[of ttl ps] by (simp add: bs_def m_def)
  define t where "t = min (nat c) (length bs)"
  have ne: "bs ! j \<noteq> []" if "j < length bs" for j
  proof -
    have "m ! j \<in> set m" using that by (simp add: bs_def)
    then have "snd (m ! j) \<noteq> []" using ok by (simp add: buckets_ok_def)
    then show ?thesis using that by (simp add: bs_def)
  qed
  have "fst ` set (take t m) \<subseteq> k ` set sel"
  proof
    fix key assume "key \<in> fst ` set (take t m)"
    then obtain j where j: "j < t" "j < length m" "key = fst (m ! j)"
      by (auto simp: in_set_conv_nth)
    then have jb: "j < length bs" "int j < int 0 + c" by (simp_all add: bs_def t_def)
    have "hd (bs ! j) \<in> set sel"
      using sample_loop_first_pass[OF run _ jb(1) jb(2)] ne by simp
    moreover have "m ! j \<in> set m" using j by simp
    then have "k (hd (snd (m ! j))) = fst (m ! j)"
      using ok by (auto simp: buckets_ok_def)
    ultimately show "key \<in> k ` set sel" using j by (force simp: bs_def)
  qed
  then have "card (fst ` set (take t m)) \<le> card (k ` set sel)"
    by (intro card_mono) simp_all
  moreover have "distinct (map fst (take t m))"
    using ok by (simp add: buckets_ok_def take_map[symmetric])
  then have "card (set (map fst (take t m))) = length (map fst (take t m))"
    by (rule distinct_card)
  then have "card (fst ` set (take t m)) = t" by (simp add: t_def bs_def)
  ultimately have "t \<le> card (k ` set sel)" by simp
  then show ?thesis using p len sub n by (simp add: t_def k_def)
qed

theorem sampler_exact_and_spread_witness:
  "(0::int) < 2 \<and> 2 < int (length ex_posts) \<and>
   postsToProcess title 2 ex_posts = Some [mk_post ''Apple'', mk_post ''7 things''] \<and>
   (\<exists>sel. postsToProcess title 2 ex_posts = Some sel \<and> int (length sel) = 2 \<and>
      mset sel \<subseteq># mset ex_posts \<and>
      min (nat 2) (card ((\<lambda>p. first_letter (title p)) ` set ex_posts))
        \<le> card ((\<lambda>p. first_letter (title p)) ` set sel))"
proof -
  have e: "postsToProcess title 2 ex_posts = Some [mk_post ''Apple'', mk_post ''7 things'']"
    by code_simp
  have l: "(0::int) < 2 \<and> 2 < int (length ex_posts)" by (simp add: ex_posts_def)
  show ?thesis
    using sampler_exact_and_spread[of 2 ex_posts title] e l by simp
qed



lemma any_left_replicate: "\<not> any_left (replicate n [])"
  by (simp add: any_left_def list_ex_iff)

lemma sample_loop_all_empty:
  "i \<le> n \<Longrightarrow> sample_loop (replicate n []) out r i = Some out"
proof (induction "n - i" arbitrary: i)
  case 0
  then show ?case by (simp add: sample_loop_exit)
next
  case (Suc k)
  then have i: "i < n" by simp
  show ?case
  proof (cases "0 < r")
    case False
    then show ?thesis by (simp add: sample_loop_exit)
  next
    case True
    have v: "visit (replicate n []) out r i = (replicate n [], out, r, (i + 1) mod n)"
      using i by (simp add: visit_def)
    have l: "i < length (replicate n ([] :: 'a list))" using i by simp
    show ?thesis
    proof (cases "Suc i < n")
      case True
      then have "(i + 1) mod n = Suc i" by simp
      moreover have "sample_loop (replicate n []) out r (Suc i) = Some out"
        using Suc.hyps(1)[of "Suc i"] Suc.hyps(2) True by simp
      ultimately show ?thesis
        using sample_loop_next[OF \<open>0 < r\<close> l v] by simp
    next
      case False
      then have "Suc i = n" using i by simp
      then have "(i + 1) mod n = 0" by simp
      then show ?thesis
        using sample_loop_break[OF \<open>0 < r\<close> l v] any_left_replicate[of n] by simp
    qed
  qed
qed

text \<open>
  C7. The round-robin loop returns from every state, and so does the sampler for every
  sequence of records and every cap: it never runs forever. When every bucket is empty,
  the pass that removes nothing ends the loop with the result as it stands.
\<close>

theorem sampler_loop_terminates:
  "(\<exists>res. sample_loop bs out remaining i = Some res) \<and>
   (\<exists>sel. postsToProcess ttl limit allPosts = Some sel) \<and>
   sample_loop (replicate n []) out remaining 0 = Some out"
  using sample_loop_total[of bs out remaining i]
    sample_loop_total[of "map snd (letterGroups ttl allPosts)" "[]" limit 0]
    sample_loop_all_empty[of 0 n out remaining]
  by (simp add: postsToProcess_def)

section \<open>The image localizer: assets, failures and second runs\<close>

lemma js_set_step_distinct:
  "distinct acc \<Longrightarrow> distinct (foldl (\<lambda>seen x. if x \<in> set seen then seen else seen @ [x]) acc xs)"
  by (induction xs arbitrary: acc) auto

lemma js_set_distinct: "distinct (js_set xs)"
  unfolding js_set_def by (rule js_set_step_distinct) simp

lemma js_set_step_set:
  "set (foldl (\<lambda>seen x. if x \<in> set seen then seen else seen @ [x]) acc xs) = set acc \<union> set xs"
  by (induction xs arbitrary: acc) auto

lemma js_set_step_seen:
  "set xs \<subseteq> set acc \<Longrightarrow> foldl (\<lambda>seen x. if x \<in> set seen then seen else seen @ [x]) acc xs = acc"
  by (induction xs arbitrary: acc) auto

lemma js_set_twice: "js_set (xs @ xs) = js_set xs"
  unfolding js_set_def foldl_append by (rule js_set_step_seen) (simp add: js_set_step_set)

lemma js_set_step_new:
  "distinct (acc @ xs) \<Longrightarrow> foldl (\<lambda>seen x. if x \<in> set seen then seen else seen @ [x]) acc xs = acc @ xs"
  by (induction xs arbitrary: acc) auto

lemma js_set_id: "distinct xs \<Longrightarrow> js_set xs = xs"
  unfolding js_set_def using js_set_step_new[of "[]" xs] by simp

lemma images_loop_distinct:
  "distinct images \<Longrightarrow> distinct (fst (snd (images_loop E directory ms (b, images, w))))"
proof (induction ms arbitrary: b images w)
  case Nil
  then show ?case by simp
next
  case (Cons m ms)
  show ?case
  proof (cases "trim m = []")
    case True
    then show ?thesis using Cons by simp
  next
    case False
    obtain b' imgs' w' where p: "processImage E (trim m) b images directory w = ((b', imgs'), w')"
      by (metis prod.exhaust)
    have "distinct (js_set (imgs' @ imgs'))" by (rule js_set_distinct)
    then have "distinct (fst (snd (images_loop E directory ms (b', js_set (imgs' @ imgs'), w'))))"
      by (rule Cons.IH)
    then show ?thesis using False p by simp
  qed
qed

text \<open>
  C9. The list of asset names that \<open>processImages\<close> returns has no duplicate, whatever
  the body: after each image the list goes through a \<open>Set\<close>.
\<close>

theorem asset_list_has_no_duplicates:
  "distinct (snd (fst (processImages E postData directory w)))"
proof (cases postData)
  case (Text s)
  show ?thesis
  proof (cases "s = []")
    case True
    then show ?thesis using Text by (simp add: processImages_def)
  next
    case False
    obtain b imgs w' where l: "images_loop E directory (matchAll_img s) (s, [], w) = (b, imgs, w')"
      by (metis prod.exhaust)
    have "distinct (fst (snd (images_loop E directory (matchAll_img s) (s, [], w))))"
      by (rule images_loop_distinct) simp
    then show ?thesis using Text False l by (simp add: processImages_def)
  qed
qed (simp_all add: processImages_def)

text \<open>
  C10. For a body that is \<open>null\<close>, \<open>undefined\<close> or the empty string, \<open>processImages\<close>
  returns the body as it is with an empty list of assets, and the world is unchanged:
  no address is requested and the file system is not touched.
\<close>

theorem empty_body_is_returned_untouched:
  "processImages E Null directory w = ((Null, []), w) \<and>
   processImages E Undefined directory w = ((Undefined, []), w) \<and>
   processImages E (Text []) directory w = ((Text [], []), w)"
  by (simp add: processImages_def)

lemma processImage_fetch_fails:
  "url \<noteq> [] \<Longrightarrow> fetch E (clean_address E url) = None \<Longrightarrow>
   processImage E url postData images directory w =
     ((postData, images), w\<lparr>requests := requests w @ [clean_address E url]\<rparr>)"
  by (simp add: processImage_def clean_address_def Let_def)

text \<open>
  C4. When the download of a candidate fails, \<open>processImage\<close> returns the body and the
  list of assets as they were passed in, and the loop of \<open>processImages\<close> goes on with
  the next match from that same body. (\<open>js_set images\<close> is \<open>images\<close> for a list without
  duplicates, which the loop's list always is.)
\<close>

theorem fetch_failure_is_not_fatal:
  assumes "url \<noteq> []" and "fetch E (clean_address E url) = None"
  shows "processImage E url postData images directory w =
           ((postData, images), w\<lparr>requests := requests w @ [clean_address E url]\<rparr>) \<and>
         (\<forall>m ms. trim m = url \<longrightarrow>
            images_loop E directory (m # ms) (postData, images, w) =
            images_loop E directory ms
              (postData, js_set images, w\<lparr>requests := requests w @ [clean_address E url]\<rparr>))"
  using assms processImage_fetch_fails[OF assms, of postData images directory w]
  by (simp add: js_set_twice)

theorem fetch_failure_is_not_fatal_witness:
  \<open>processImage (demo_env demo_net) ''http://dead/x.png'' dead_body [] ''out/post'' w0 =
     ((dead_body, []), w0\<lparr>requests := [''http://dead/x.png'']\<rparr>) \<and>
   images_loop (demo_env demo_net) ''out/post'' [''http://dead/x.png'', ''http://y/c.png'']
     (dead_body, [], w0) =
   images_loop (demo_env demo_net) ''out/post'' [''http://y/c.png'']
     (dead_body, [], w0\<lparr>requests := [''http://dead/x.png'']\<rparr>) \<and>
   fst (processImages (demo_env demo_net) (Text dead_body) ''out/post'' w0) =
     (Text ''<img src="http://dead/x.png"><img src="./post/c.png">'', [''c.png''])\<close>
proof -
  let ?E = "demo_env demo_net"
  have a: "''http://dead/x.png'' \<noteq> []" by simp
  have f: "fetch ?E (clean_address ?E ''http://dead/x.png'') = None" by code_simp
  have k: "clean_address ?E ''http://dead/x.png'' = ''http://dead/x.png''" by code_simp
  have t: "trim ''http://dead/x.png'' = ''http://dead/x.png''" by code_simp
  have r: "requests w0 = []" by code_simp
  have j: "js_set ([] :: string list) = []" by code_simp
  have e: \<open>fst (processImages ?E (Text dead_body) ''out/post'' w0) =
     (Text ''<img src="http://dead/x.png"><img src="./post/c.png">'', [''c.png''])\<close> by code_simp
  note th = fetch_failure_is_not_fatal[OF a f, of dead_body "[]" "''out/post''" w0]
  show ?thesis
    using th[THEN conjunct1] th[THEN conjunct2, rule_format, OF t, of "[''http://y/c.png'']"] k r j e
    by simp
qed

text \<open>
  C1, as the claim states it, fails: the address \<open>https://example.com/image.php\<close> serves
  PNG bytes, and the asset is named and written as \<open>image.php\<close>.
\<close>

theorem php_address_keeps_php_name_counterexample:
  "fetch (demo_env demo_net) (clean_address (demo_env demo_net) ''https://example.com/image.php'')
     = Some png_bytes \<and>
   imageType (demo_env demo_net) png_bytes = Some ''png'' \<and>
   snd (fst (processImage (demo_env demo_net) ''https://example.com/image.php'' php_body []
               ''out/post'' w0)) = [''image.php''] \<and>
   snd (disk (snd (processImage (demo_env demo_net) ''https://example.com/image.php'' php_body []
               ''out/post'' w0))) = [(''out/post/image.php'', png_bytes)] \<and>
   \<not> ends_with ''.png'' ''image.php''"
  by code_simp

text \<open>
  C1, amended. For every image whose download and write succeed, the local file name is
  the base of the address's path, suffix included, whatever the bytes are; the file
  system is the one the write of these bytes under that name gives.
\<close>

theorem image_name_is_base_of_url_path:
  assumes "url \<noteq> []"
    and "fetch E (clean_address E url) = Some buffer"
    and "url_pathname E (clean_address E url) = Some pathname"
    and "(if existsSync E (disk w) (path_join E [directory]) then Some (disk w)
          else mkdirSync E (disk w) (path_join E [directory])) = Some d1"
    and "writeFileSync E d1
           (path_join E [path_join E [directory], path_parse_base E pathname]) buffer = Some d2"
  shows "snd (fst (processImage E url postData images directory w)) = images @ [path_parse_base E pathname]
         \<and> disk (snd (processImage E url postData images directory w)) = d2"
proof (cases "existsSync E (disk w) (path_join E [directory])")
  case True
  then have "d1 = disk w" using assms(4) by simp
  then show ?thesis
    using assms True by (simp add: processImage_def clean_address_def Let_def)
next
  case False
  then have "mkdirSync E (disk w) (path_join E [directory]) = Some d1" using assms(4) by simp
  then show ?thesis
    using assms False by (simp add: processImage_def clean_address_def Let_def)
qed

theorem image_name_is_base_of_url_path_witness:
  "snd (fst (processImage (demo_env demo_net) ''http://y/c.png'' gif_png_body [''anim.gif'']
               ''out/post'' w0)) = [''anim.gif'', ''c.png''] \<and>
   disk (snd (processImage (demo_env demo_net) ''http://y/c.png'' gif_png_body [''anim.gif'']
               ''out/post'' w0)) = ([''out'', ''out/post''], [(''out/post/c.png'', png_bytes)])"
proof -
  let ?E = "demo_env demo_net"
  have a: "''http://y/c.png'' \<noteq> []" by simp
  have b: "fetch ?E (clean_address ?E ''http://y/c.png'') = Some png_bytes" by code_simp
  have c: "url_pathname ?E (clean_address ?E ''http://y/c.png'') = Some ''/c.png''" by code_simp
  have d: "(if existsSync ?E (disk w0) (path_join ?E [''out/post'']) then Some (disk w0)
            else mkdirSync ?E (disk w0) (path_join ?E [''out/post'']))
           = Some ([''out'', ''out/post''], [])" by code_simp
  have e: "writeFileSync ?E ([''out'', ''out/post''], [])
             (path_join ?E [path_join ?E [''out/post''], path_parse_base ?E ''/c.png'']) png_bytes
           = Some ([''out'', ''out/post''], [(''out/post/c.png'', png_bytes)])" by code_simp
  have f: "path_parse_base ?E ''/c.png'' = ''c.png''" by code_simp
  show ?thesis
    using image_name_is_base_of_url_path[OF a b c d e, of gif_png_body "[''anim.gif'']"] f
    by simp
qed





section \<open>The front matter: hero and description\<close>





lemma insert_by_front: "(\<forall>y \<in> set ys. cmp x y \<le> 0) \<Longrightarrow> insert_by cmp x ys = x # ys"
  by (cases ys) auto

lemma js_sort_unordered:
  "(\<forall>x \<in> set xs. \<forall>y \<in> set xs. cmp x y \<le> 0) \<Longrightarrow> js_sort cmp xs = xs"
proof (induction xs)
  case Nil
  then show ?case by (simp add: js_sort_def)
next
  case (Cons x xs)
  then have "js_sort cmp xs = xs" by simp
  then have "js_sort cmp (x # xs) = insert_by cmp x xs" by (simp add: js_sort_def)
  then show ?case using Cons.prems by (simp add: insert_by_front)
qed

lemma by_length_desc_candidates:
  "\<forall>x \<in> set (description_candidates p). \<forall>y \<in> set (description_candidates p). by_length_desc x y \<le> 0"
proof (cases "description p")
  case None
  then show ?thesis
    by (auto simp: description_candidates_def by_length_desc_def js_length_def)
next
  case (Some d)
  then show ?thesis
    by (auto simp: description_candidates_def by_length_desc_def js_length_def)
qed

lemma description_text_reads_no_value:
  "description_text p =
     (case description p of
        Some d \<Rightarrow> join_comma d
      | None \<Rightarrow>
          if filter is_description_meta (case postmeta p of None \<Rightarrow> [] | Some ms \<Rightarrow> ms) = []
          then ''undefined'' else ''[object Object]'')"
proof -
  have "js_sort by_length_desc (description_candidates p) = description_candidates p"
    using by_length_desc_candidates by (rule js_sort_unordered)
  then show ?thesis
    by (cases "filter is_description_meta (case postmeta p of None \<Rightarrow> [] | Some ms \<Rightarrow> ms)")
       (auto simp: description_text_def description_candidates_def split: option.splits)
qed


text \<open>
  C5 does not hold of the code. The record has an empty description and a
  \<open>_yoast_wpseo_metadesc\<close> entry with a text; the candidates compared are the array and
  the entry object, not their texts, so the order is left as it is and the front matter
  gets the empty description.
\<close>

theorem description_not_the_longest_candidate:
  "description_candidates meta_post =
     [DescField [[]], MetaEntry \<lparr>meta_key = Some ''_yoast_wpseo_metadesc'',
                                  meta_value = ''A long summary of the post''\<rparr>] \<and>
   description_text meta_post = [] \<and>
   description_line meta_post = ''description: '' @ [CHR 0x22, CHR 0x22]"
  by code_simp


end
